theory Spec2Isabelle
  imports Main
begin

section \<open>The console history manager of \<open>src/console/history.ts\<close>\<close>

text \<open>
  A shallow embedding of the class \<open>ConsoleHistory\<close>. Every method becomes a function
  from the object's fields to the updated fields together with what the call answers.
  JavaScript's \<open>null\<close> and \<open>undefined\<close> are \<open>None\<close>; a property read on
  \<open>null\<close> raises \<open>TypeError\<close>, which the model returns as a value together with the
  fields as they are at the moment of the raise. A string is the list of its code units,
  so that \<open>slice(0, n)\<close> is \<open>take n\<close> and \<open>length\<close> is the length of the list.
\<close>

subsection \<open>Data\<close>

text \<open>
  A kernel is known to the class by object identity only. A value of the kernel's type
  is \<open>null\<close>, \<open>undefined\<close> or a kernel; strict equality tells the three apart,
  the truth test takes the first two together.
\<close>

type_synonym kernel = nat

datatype kernel_ref = Null | Undefined | Kernel kernel

text \<open>The request of \<open>Private.initialRequest\<close>.\<close>

record history_request =
  req_output :: bool
  req_raw :: bool
  req_hist_access_type :: string
  req_n :: nat

definition initialRequest :: history_request where
  "initialRequest =
     \<lparr>req_output = False, req_raw = True, req_hist_access_type = ''tail'', req_n = 500\<rparr>"

text \<open>
  An entry of a history reply has the shape \<open>[session, line, input]\<close>; a reply is
  the array \<open>value.content.history\<close>.
\<close>

type_synonym history_entry = "int \<times> int \<times> string"
type_synonym history_reply = "history_entry list"

definition input_of :: "history_entry \<Rightarrow> string" where
  "input_of e = snd (snd e)"

datatype error = TypeError

text \<open>The private fields of the class, in the order of their declaration.\<close>

record console_history =
  cursor :: int
  hasSession :: bool
  history :: "string list option"
  kernel :: kernel_ref
  placeholder :: string
  filtered :: "string list option"

subsection \<open>The vector operations the class relies on\<close>

text \<open>
  \<open>Vector.at\<close> reads the backing array at the index, which is \<open>undefined\<close>
  outside of the array; \<open>Vector.back\<close> is the last element, \<open>undefined\<close> on an
  empty vector.
\<close>

definition vector_at :: "'a list \<Rightarrow> int \<Rightarrow> 'a option" where
  "vector_at xs i = (if 0 \<le> i \<and> i < int (length xs) then Some (xs ! nat i) else None)"

definition vector_back :: "'a list \<Rightarrow> 'a option" where
  "vector_back xs = (if xs = [] then None else Some (last xs))"

subsection \<open>The methods\<close>

definition isDisposed :: "console_history \<Rightarrow> bool" where
  "isDisposed s = (history s = None)"

text \<open>
  The setter of \<open>kernel\<close>. It answers the requests it sends: none, or one
  \<open>requestHistory\<close> to the new kernel, whose reply is handed to \<open>onHistory\<close>
  when it arrives.
\<close>

definition kernel_set ::
  "kernel_ref \<Rightarrow> console_history \<Rightarrow> (kernel \<times> history_request) list \<times> console_history" where
  "kernel_set newValue s =
     (if newValue = kernel s then ([], s)
      else
        let s1 = s\<lparr>kernel := newValue\<rparr> in
        (case kernel s1 of
           Null \<Rightarrow> ([], s1\<lparr>history := Some []\<rparr>)
         | Undefined \<Rightarrow> ([], s1\<lparr>history := Some []\<rparr>)
         | Kernel k \<Rightarrow> ([(k, initialRequest)], s1)))"

text \<open>
  The constructor: the field initialisers, a fresh vector, then the kernel of the options
  if there are options and their kernel is one. The argument is \<open>None\<close> without
  options, else the value of \<open>options.kernel\<close>.
\<close>

definition construct ::
  "kernel_ref option \<Rightarrow> (kernel \<times> history_request) list \<times> console_history" where
  "construct opt =
     (let s0 = \<lparr>cursor = 0, hasSession = False, history = None, kernel = Null,
                placeholder = [], filtered = None\<rparr>;
          s1 = s0\<lparr>history := Some []\<rparr>
      in (case opt of
            Some (Kernel k) \<Rightarrow> kernel_set (Kernel k) s1
          | _ \<Rightarrow> ([], s1)))"

definition dispose :: "console_history \<Rightarrow> console_history" where
  "dispose s = (if isDisposed s then s else s\<lparr>history := None\<rparr>)"

text \<open>The predicate of \<open>setFilter\<close>: \<open>filterStr == str.slice(0, filterStr.length)\<close>.\<close>

definition matches :: "string \<Rightarrow> string \<Rightarrow> bool" where
  "matches filterStr str = (filterStr = take (length filterStr) str)"

text \<open>Iterating over a \<open>null\<close> history raises.\<close>

definition setFilter :: "string \<Rightarrow> console_history \<Rightarrow> error + console_history" where
  "setFilter filterStr s =
     (case history s of
        None \<Rightarrow> Inl TypeError
      | Some h \<Rightarrow> Inr (s\<lparr>filtered := Some (filter (matches filterStr) h)\<rparr>))"

text \<open>
  The opening block that \<open>back\<close> and \<open>forward\<close> share word for word: without a
  session, one is opened, the placeholder is kept, the history is filtered and the cursor
  is put behind the last filtered entry.
\<close>

definition beginSession ::
  "string \<Rightarrow> console_history \<Rightarrow> (error + unit) \<times> console_history" where
  "beginSession p s =
     (if \<not> hasSession s then
        let s1 = s\<lparr>hasSession := True\<rparr>;
            s2 = s1\<lparr>placeholder := p\<rparr>
        in (case setFilter p s2 of
              Inl e \<Rightarrow> (Inl e, s2)
            | Inr s3 \<Rightarrow>
                (case filtered s3 of
                   None \<Rightarrow> (Inl TypeError, s3)
                 | Some f \<Rightarrow> (Inr (), s3\<lparr>cursor := int (length f)\<rparr>)))
      else (Inr (), s))"

text \<open>
  The method \<open>back\<close> (here \<open>back_op\<close>, the plain name being a command of
  the proof language) reads at the decremented cursor and clamps the cursor afterwards.
  The promise it returns is already resolved: the model answers its content.
\<close>

definition back_op ::
  "string \<Rightarrow> console_history \<Rightarrow> (error + string option) \<times> console_history" where
  "back_op p s =
     (case beginSession p s of
        (Inl e, s1) \<Rightarrow> (Inl e, s1)
      | (Inr u, s1) \<Rightarrow>
          (case filtered s1 of
             None \<Rightarrow> (Inl TypeError, s1)
           | Some f \<Rightarrow>
               let s2 = s1\<lparr>cursor := cursor s1 - 1\<rparr>;
                   content = vector_at f (cursor s2)
               in (Inr content, s2\<lparr>cursor := max 0 (cursor s2)\<rparr>)))"

definition forward ::
  "string \<Rightarrow> console_history \<Rightarrow> (error + string option) \<times> console_history" where
  "forward p s =
     (case beginSession p s of
        (Inl e, s1) \<Rightarrow> (Inl e, s1)
      | (Inr u, s1) \<Rightarrow>
          (case filtered s1 of
             None \<Rightarrow> (Inl TypeError, s1)
           | Some f \<Rightarrow>
               let s2 = s1\<lparr>cursor := cursor s1 + 1\<rparr>;
                   content = vector_at f (cursor s2)
               in (Inr content, s2\<lparr>cursor := min (int (length f)) (cursor s2)\<rparr>)))"

definition reset :: "console_history \<Rightarrow> (error + unit) \<times> console_history" where
  "reset s =
     (case history s of
        None \<Rightarrow> (Inl TypeError, s)
      | Some h \<Rightarrow>
          (Inr (), s\<lparr>cursor := int (length h), hasSession := False, placeholder := []\<rparr>))"

text \<open>
  The argument of \<open>push\<close> may be absent (\<open>None\<close>) or the empty string; both are
  falsy, and then the history is not read at all.
\<close>

definition push :: "string option \<Rightarrow> console_history \<Rightarrow> (error + unit) \<times> console_history" where
  "push item s =
     (case item of
        None \<Rightarrow> reset s
      | Some x \<Rightarrow>
          if x = [] then reset s
          else
            (case history s of
               None \<Rightarrow> (Inl TypeError, s)
             | Some h \<Rightarrow>
                 if Some x \<noteq> vector_back h then reset (s\<lparr>history := Some (h @ [x])\<rparr>)
                 else reset s))"

text \<open>
  The loop of \<open>onHistory\<close>: \<open>i\<close> is the index, \<open>lst\<close> the local \<open>last\<close>,
  \<open>h\<close> the fresh vector.
\<close>

function onHistory_loop :: "history_reply \<Rightarrow> nat \<Rightarrow> string \<Rightarrow> string list \<Rightarrow> string list" where
  "onHistory_loop hs i lst h =
     (if i < length hs then
        (let current = input_of (hs ! i) in
           if current \<noteq> lst then onHistory_loop hs (i + 1) current (h @ [current])
           else onHistory_loop hs (i + 1) lst h)
      else h)"
  by pat_completeness auto
termination
  by (relation "measure (\<lambda>(hs, i, lst, h). length hs - i)") auto

declare onHistory_loop.simps [simp del]

definition onHistory :: "history_reply \<Rightarrow> console_history \<Rightarrow> console_history" where
  "onHistory v s =
     (let h = onHistory_loop v 0 [] [];
          s1 = s\<lparr>history := Some h\<rparr>
      in s1\<lparr>cursor := int (length h)\<rparr>)"

subsection \<open>The object among its callers\<close>

text \<open>
  The reply to \<open>requestHistory\<close> arrives later, between two calls. A world is the
  object together with the requests that are still open, each under the kernel it was sent
  to. An event is a call of a public method or the settling of an open request: when the
  promise of the request at position \<open>i\<close> resolves, its callback calls
  \<open>onHistory\<close>; when it rejects, no callback runs.
\<close>

record world =
  obj :: console_history
  pending :: "kernel list"

datatype event =
    SetKernel kernel_ref
  | Dispose
  | Back string
  | Forward string
  | Push "string option"
  | Reset
  | Resolve nat history_reply
  | Reject nat

datatype outcome = Void | Content "string option" | Thrown error

definition new_world :: "kernel_ref option \<Rightarrow> world" where
  "new_world opt = (case construct opt of (reqs, s) \<Rightarrow> \<lparr>obj = s, pending = map fst reqs\<rparr>)"

definition content_outcome :: "error + string option \<Rightarrow> outcome" where
  "content_outcome r = (case r of Inl e \<Rightarrow> Thrown e | Inr c \<Rightarrow> Content c)"

definition void_outcome :: "error + unit \<Rightarrow> outcome" where
  "void_outcome r = (case r of Inl e \<Rightarrow> Thrown e | Inr u \<Rightarrow> Void)"

definition settle :: "nat \<Rightarrow> kernel list \<Rightarrow> kernel list" where
  "settle i ps = take i ps @ drop (Suc i) ps"

fun step :: "event \<Rightarrow> world \<Rightarrow> outcome \<times> world" where
  "step (SetKernel k) w =
     (case kernel_set k (obj w) of
        (reqs, s) \<Rightarrow> (Void, w\<lparr>obj := s, pending := pending w @ map fst reqs\<rparr>))"
| "step Dispose w = (Void, w\<lparr>obj := dispose (obj w)\<rparr>)"
| "step (Back p) w =
     (case back_op p (obj w) of (r, s) \<Rightarrow> (content_outcome r, w\<lparr>obj := s\<rparr>))"
| "step (Forward p) w =
     (case forward p (obj w) of (r, s) \<Rightarrow> (content_outcome r, w\<lparr>obj := s\<rparr>))"
| "step (Push item) w =
     (case push item (obj w) of (r, s) \<Rightarrow> (void_outcome r, w\<lparr>obj := s\<rparr>))"
| "step Reset w =
     (case reset (obj w) of (r, s) \<Rightarrow> (void_outcome r, w\<lparr>obj := s\<rparr>))"
| "step (Resolve i v) w =
     (if i < length (pending w)
      then (Void, w\<lparr>obj := onHistory v (obj w), pending := settle i (pending w)\<rparr>)
      else (Void, w))"
| "step (Reject i) w =
     (if i < length (pending w) then (Void, w\<lparr>pending := settle i (pending w)\<rparr>)
      else (Void, w))"

fun run :: "event list \<Rightarrow> world \<Rightarrow> outcome list \<times> world" where
  "run [] w = ([], w)"
| "run (e # es) w =
     (case step e w of
        (out, w1) \<Rightarrow> (case run es w1 of (outs, w2) \<Rightarrow> (out # outs, w2)))"

text \<open>The operations that change the history itself, applied one after the other.\<close>

datatype log_op = PushOp "string option" | MergeOp history_reply

fun apply_op :: "log_op \<Rightarrow> console_history \<Rightarrow> console_history" where
  "apply_op (PushOp item) s = snd (push item s)"
| "apply_op (MergeOp v) s = onHistory v s"

fun apply_ops :: "log_op list \<Rightarrow> console_history \<Rightarrow> console_history" where
  "apply_ops [] s = s"
| "apply_ops (x # xs) s = apply_ops xs (apply_op x s)"

subsection \<open>The deduplication as the specification words it\<close>

text \<open>
  The specification describes the merge of a snapshot as a fold over the entries with a
  running "last kept" value, empty at the start: an entry is appended, and becomes the
  last kept one, exactly when it differs from the last kept one.
\<close>

definition spec_dedup_step :: "string list \<times> string \<Rightarrow> string \<Rightarrow> string list \<times> string" where
  "spec_dedup_step acc entry =
     (case acc of (log, last_kept) \<Rightarrow>
        if entry \<noteq> last_kept then (log @ [entry], entry) else (log, last_kept))"

definition spec_dedup :: "string list \<Rightarrow> string list" where
  "spec_dedup entries = fst (foldl spec_dedup_step ([], []) entries)"

text \<open>
  The events that end a session, and the view a navigation call works on: the stored one
  within a session, the one the call is about to compute from the history otherwise.
\<close>

fun ends_session :: "event \<Rightarrow> bool" where
  "ends_session (Push item) = True"
| "ends_session Reset = True"
| "ends_session e = False"


text \<open>The events after which a disposed object has a history again.\<close>

fun revives :: "event \<Rightarrow> bool" where
  "revives (SetKernel Null) = True"
| "revives (SetKernel Undefined) = True"
| "revives (Resolve i v) = True"
| "revives e = False"

text \<open>
  A session with placeholder \<open>P\<close> is in good order when it is open under \<open>P\<close>
  and every entry of its stored view matches \<open>P\<close>.
\<close>

definition view_ok :: "string \<Rightarrow> console_history \<Rightarrow> bool" where
  "view_ok P s =
     (hasSession s \<and> placeholder s = P \<and>
      (case filtered s of None \<Rightarrow> False | Some f \<Rightarrow> list_all (matches P) f))"

section \<open>The merge of a snapshot\<close>

text \<open>
  The loop of \<open>onHistory\<close>, entered at any index with any accumulated state, computes
  the fold of the specification over the entries that are left.
\<close>

lemma onHistory_loop_fold:
  "i \<le> length hs \<Longrightarrow>
   onHistory_loop hs i lst h = fst (foldl spec_dedup_step (h, lst) (map input_of (drop i hs)))"
proof (induction hs i lst h rule: onHistory_loop.induct)
  case (1 hs i lst h)
  show ?case
  proof (cases "i < length hs")
    case False
    then show ?thesis by (simp add: onHistory_loop.simps [of hs i])
  next
    case True
    then have d: "drop i hs = hs ! i # drop (Suc i) hs"
      by (simp add: Cons_nth_drop_Suc)
    show ?thesis
    proof (cases "input_of (hs ! i) = lst")
      case same: True
      with True "1.IH"(2) [of "input_of (hs ! i)"] show ?thesis
        by (simp add: onHistory_loop.simps [of hs i] d spec_dedup_step_def Let_def)
    next
      case diff: False
      with True "1.IH"(1) [of "input_of (hs ! i)"] show ?thesis
        by (simp add: onHistory_loop.simps [of hs i] d spec_dedup_step_def Let_def)
    qed
  qed
qed

text \<open>
  The loop keeps a vector free of adjacent repetitions so, provided the local
  \<open>lst\<close> is the last element of a non-empty vector.
\<close>

lemma onHistory_loop_distinct_adj:
  "distinct_adj h \<Longrightarrow> (h \<noteq> [] \<Longrightarrow> last h = lst) \<Longrightarrow> distinct_adj (onHistory_loop hs i lst h)"
proof (induction hs i lst h rule: onHistory_loop.induct)
  case (1 hs i lst h)
  show ?case
  proof (cases "i < length hs")
    case False
    with "1.prems" show ?thesis by (simp add: onHistory_loop.simps [of hs i])
  next
    case True
    show ?thesis
    proof (cases "input_of (hs ! i) = lst")
      case same: True
      with True "1.IH"(2) [of "input_of (hs ! i)"] "1.prems" show ?thesis
        by (simp add: onHistory_loop.simps [of hs i] Let_def)
    next
      case diff: False
      have "distinct_adj (h @ [input_of (hs ! i)])"
        using "1.prems" diff by (auto simp: distinct_adj_append_iff)
      with True diff "1.IH"(1) [of "input_of (hs ! i)"] show ?thesis
        by (simp add: onHistory_loop.simps [of hs i] Let_def)
    qed
  qed
qed

lemma onHistory_history:
  "history (onHistory v s) = Some (onHistory_loop v 0 [] [])"
  by (simp add: onHistory_def Let_def)

lemma onHistory_cursor:
  "cursor (onHistory v s) = int (length (onHistory_loop v 0 [] []))"
  by (simp add: onHistory_def Let_def)

section \<open>No adjacent repetitions\<close>

lemma push_history_cases:
  "history s = Some h \<Longrightarrow>
   history (snd (push item s)) = Some h \<or>
   (\<exists>x. x \<noteq> [] \<and> Some x \<noteq> vector_back h \<and> history (snd (push item s)) = Some (h @ [x]))"
  by (auto simp: push_def reset_def split: option.splits)

lemma push_distinct_adj:
  assumes "history s = Some h" "distinct_adj h"
  shows "\<exists>h'. history (snd (push item s)) = Some h' \<and> distinct_adj h'"
  using push_history_cases [OF assms(1), of item] assms(2)
  by (auto simp: distinct_adj_append_iff vector_back_def split: if_splits)

lemma apply_ops_distinct_adj:
  "history s = Some h \<Longrightarrow> distinct_adj h \<Longrightarrow>
   \<exists>h'. history (apply_ops ops s) = Some h' \<and> distinct_adj h'"
proof (induction ops arbitrary: s h)
  case Nil
  then show ?case by simp
next
  case (Cons x xs)
  have "\<exists>h1. history (apply_op x s) = Some h1 \<and> distinct_adj h1"
  proof (cases x)
    case (PushOp item)
    with push_distinct_adj [OF Cons.prems, of item] show ?thesis by simp
  next
    case (MergeOp v)
    have "distinct_adj (onHistory_loop v 0 [] [])"
      by (rule onHistory_loop_distinct_adj) simp_all
    with MergeOp show ?thesis
      by (simp add: onHistory_history)
  qed
  then obtain h1 where "history (apply_op x s) = Some h1" "distinct_adj h1" by blast
  from Cons.IH [OF this] show ?case by simp
qed

text \<open>
  Claim C4. Starting from an empty history, after any sequence of pushes and merges of
  snapshots the object has a history, and no two neighbours in it are equal. The
  sequence is arbitrary, so the same holds at every moment on the way.
\<close>

theorem log_never_adjacent_equal:
  assumes "history s = Some []"
  shows "\<exists>h. history (apply_ops ops s) = Some h \<and> distinct_adj h"
  using apply_ops_distinct_adj [OF assms] by simp

text \<open>The theorem at a freshly constructed object and five operations.\<close>

theorem log_never_adjacent_equal_witness:
  "history (snd (construct None)) = Some [] \<and>
   (\<exists>h. history (apply_ops [PushOp (Some ''a''), PushOp (Some ''a''),
                              MergeOp [(1, 1, ''b''), (1, 2, ''b''), (1, 3, ''a'')],
                              PushOp (Some ''a''), PushOp None] (snd (construct None))) = Some h \<and>
        distinct_adj h)"
proof -
  have e: "history (snd (construct None)) = Some []"
    by (simp add: construct_def)
  show ?thesis
    by (rule conjI [OF e log_never_adjacent_equal [OF e]])
qed

text \<open>
  Claim C5. Merging a snapshot replaces the history by the fold of the specification over
  the inputs of the snapshot's entries, in their order, and leaves the cursor at the
  length of the new history; the raw inputs x, x, y, y, y, z give the history x, y, z.
\<close>

theorem onHistory_is_spec_dedup:
  "history (onHistory v s) = Some (spec_dedup (map input_of v)) \<and>
   cursor (onHistory v s) = int (length (spec_dedup (map input_of v))) \<and>
   spec_dedup [''x'', ''x'', ''y'', ''y'', ''y'', ''z''] = [''x'', ''y'', ''z''] \<and>
   history (onHistory [(1, 1, ''x''), (1, 2, ''x''), (1, 3, ''y''), (1, 4, ''y''), (1, 5, ''y''), (1, 6, ''z'')] s)
     = Some [''x'', ''y'', ''z'']"
proof -
  have l: "onHistory_loop v 0 [] [] = spec_dedup (map input_of v)" for v
    using onHistory_loop_fold [of 0 v "[]" "[]"] by (simp add: spec_dedup_def)
  have x: "spec_dedup [''x'', ''x'', ''y'', ''y'', ''y'', ''z''] = [''x'', ''y'', ''z'']"
    by (simp add: spec_dedup_def spec_dedup_step_def)
  have m: "map input_of [(1, 1, ''x''), (1, 2, ''x''), (1, 3, ''y''), (1, 4, ''y''), (1, 5, ''y''), (1, 6, ''z'')]
     = [''x'', ''x'', ''y'', ''y'', ''y'', ''z'']"
    by (simp add: input_of_def)
  show ?thesis
    by (simp only: onHistory_history onHistory_cursor l m x)
qed

section \<open>Single calls\<close>

text \<open>
  What one navigation call does, within a session and when it opens one on an object
  that has a history.
\<close>

lemma back_in_session:
  "hasSession s \<Longrightarrow> filtered s = Some f \<Longrightarrow>
   back_op p s = (Inr (vector_at f (cursor s - 1)), s\<lparr>cursor := max 0 (cursor s - 1)\<rparr>)"
  by (simp add: back_op_def beginSession_def Let_def)

lemma forward_in_session:
  "hasSession s \<Longrightarrow> filtered s = Some f \<Longrightarrow>
   forward p s =
     (Inr (vector_at f (cursor s + 1)), s\<lparr>cursor := min (int (length f)) (cursor s + 1)\<rparr>)"
  by (simp add: forward_def beginSession_def Let_def)

lemma back_begin:
  "\<not> hasSession s \<Longrightarrow> history s = Some h \<Longrightarrow>
   back_op p s =
     (Inr (vector_at (filter (matches p) h) (int (length (filter (matches p) h)) - 1)),
      s\<lparr>hasSession := True, placeholder := p, filtered := Some (filter (matches p) h),
        cursor := max 0 (int (length (filter (matches p) h)) - 1)\<rparr>)"
  by (simp add: back_op_def beginSession_def setFilter_def Let_def)

lemma forward_begin:
  "\<not> hasSession s \<Longrightarrow> history s = Some h \<Longrightarrow>
   forward p s =
     (Inr None,
      s\<lparr>hasSession := True, placeholder := p, filtered := Some (filter (matches p) h),
        cursor := int (length (filter (matches p) h))\<rparr>)"
  by (simp add: forward_def beginSession_def setFilter_def Let_def vector_at_def)

lemma begin_without_history:
  "\<not> hasSession s \<Longrightarrow> history s = None \<Longrightarrow>
   fst (back_op p s) = Inl TypeError \<and> fst (forward p s) = Inl TypeError"
  by (simp add: back_op_def forward_def beginSession_def setFilter_def Let_def)

section \<open>A push that appends nothing\<close>

text \<open>
  Claim C7. On an object with a history, a push of an absent or empty item, or of the
  item that is the last entry of the history, leaves the history as it is and ends the
  session exactly as \<open>reset\<close> does: the call returns, no session is open, the
  placeholder is the empty string and the cursor is the length of the history.
\<close>

theorem push_ignored_still_resets:
  assumes "history s = Some log"
      and "item = None \<or> item = Some [] \<or> item = vector_back log"
  shows "push item s = reset s \<and>
         fst (push item s) = Inr () \<and>
         history (snd (push item s)) = Some log \<and>
         \<not> hasSession (snd (push item s)) \<and>
         placeholder (snd (push item s)) = [] \<and>
         cursor (snd (push item s)) = int (length log)"
proof -
  have "push item s = reset s"
    using assms by (auto simp: push_def vector_back_def split: option.splits if_splits)
  moreover have "reset s = (Inr (), s\<lparr>cursor := int (length log), hasSession := False, placeholder := []\<rparr>)"
    using assms(1) by (simp add: reset_def)
  ultimately show ?thesis using assms(1) by simp
qed

text \<open>The theorem at an open session and a push of the last entry.\<close>

theorem push_ignored_still_resets_witness:
  "history \<lparr>cursor = 0, hasSession = True, history = Some [''a=1'', ''b''], kernel = Null,
             placeholder = ''a'', filtered = Some [''a=1'']\<rparr> = Some [''a=1'', ''b''] \<and>
   Some ''b'' = vector_back [''a=1'', ''b''] \<and>
   push (Some ''b'') \<lparr>cursor = 0, hasSession = True, history = Some [''a=1'', ''b''], kernel = Null,
             placeholder = ''a'', filtered = Some [''a=1'']\<rparr>
     = (Inr (), \<lparr>cursor = 2, hasSession = False, history = Some [''a=1'', ''b''], kernel = Null,
             placeholder = [], filtered = Some [''a=1'']\<rparr>)"
proof -
  let ?s = "\<lparr>cursor = 0, hasSession = True, history = Some [''a=1'', ''b''], kernel = Null,
             placeholder = ''a'', filtered = Some [''a=1'']\<rparr>"
  have h: "history ?s = Some [''a=1'', ''b'']" by simp
  have b: "Some ''b'' = vector_back [''a=1'', ''b'']" by (simp add: vector_back_def)
  then have d: "Some ''b'' = None \<or> Some ''b'' = Some [] \<or> Some ''b'' = vector_back [''a=1'', ''b'']"
    by blast
  have r: "reset ?s = (Inr (), \<lparr>cursor = 2, hasSession = False, history = Some [''a=1'', ''b''], kernel = Null,
             placeholder = [], filtered = Some [''a=1'']\<rparr>)"
    by (simp add: reset_def)
  from push_ignored_still_resets [OF h d] have "push (Some ''b'') ?s = reset ?s" by (rule conjunct1)
  from this r have "push (Some ''b'') ?s = (Inr (), \<lparr>cursor = 2, hasSession = False, history = Some [''a=1'', ''b''], kernel = Null,
             placeholder = [], filtered = Some [''a=1'']\<rparr>)" by (rule trans)
  with h b show ?thesis by (intro conjI)
qed

section \<open>A snapshot that arrives during a session\<close>

text \<open>
  Claim C10. \<open>onHistory\<close> writes the history and the cursor and nothing else: the
  session flag, the placeholder, the stored view and the kernel stay. A navigation call
  that follows within the session reads the stored view, computed from the old history,
  at the cursor moved from the length of the new history, and leaves the view stored.
  That cursor can lie beyond the end of the view.
\<close>

theorem onHistory_frame:
  "onHistory v s =
     s\<lparr>history := Some (onHistory_loop v 0 [] []),
       cursor := int (length (onHistory_loop v 0 [] []))\<rparr> \<and>
   hasSession (onHistory v s) = hasSession s \<and>
   placeholder (onHistory v s) = placeholder s \<and>
   filtered (onHistory v s) = filtered s \<and>
   kernel (onHistory v s) = kernel s \<and>
   (hasSession s \<and> filtered s = Some f \<longrightarrow>
      fst (back_op p (onHistory v s)) =
        Inr (vector_at f (int (length (onHistory_loop v 0 [] [])) - 1)) \<and>
      fst (forward p (onHistory v s)) =
        Inr (vector_at f (int (length (onHistory_loop v 0 [] [])) + 1)) \<and>
      filtered (snd (back_op p (onHistory v s))) = Some f \<and>
      filtered (snd (forward p (onHistory v s))) = Some f) \<and>
   (\<exists>v' s' f'. hasSession s' \<and> filtered s' = Some f' \<and>
      int (length f') < cursor (onHistory v' s'))"
proof -
  have eq: "onHistory v s =
     s\<lparr>history := Some (onHistory_loop v 0 [] []),
       cursor := int (length (onHistory_loop v 0 [] []))\<rparr>"
    by (simp add: onHistory_def Let_def)
  have nav: "fst (back_op p (onHistory v s)) =
        Inr (vector_at f (int (length (onHistory_loop v 0 [] [])) - 1)) \<and>
      fst (forward p (onHistory v s)) =
        Inr (vector_at f (int (length (onHistory_loop v 0 [] [])) + 1)) \<and>
      filtered (snd (back_op p (onHistory v s))) = Some f \<and>
      filtered (snd (forward p (onHistory v s))) = Some f"
    if "hasSession s" "filtered s = Some f"
  proof -
    have a: "hasSession (onHistory v s)" "filtered (onHistory v s) = Some f"
      using that by (simp_all add: eq)
    have c: "cursor (onHistory v s) = int (length (onHistory_loop v 0 [] []))"
      by (simp add: eq)
    show ?thesis
      by (simp add: back_in_session [OF a] forward_in_session [OF a] c a)
  qed
  let ?s = "\<lparr>cursor = 0, hasSession = True, history = Some [], kernel = Null,
             placeholder = [], filtered = Some []\<rparr>"
  have "onHistory_loop [(1, 1, ''x'')] 0 [] [] = [''x'']"
    by (simp add: onHistory_loop.simps [of _ 0] onHistory_loop.simps [of _ "Suc 0"] input_of_def)
  then have "hasSession ?s \<and> filtered ?s = Some [] \<and>
      int (length ([]::string list)) < cursor (onHistory [(1, 1, ''x'')] ?s)"
    by (simp add: onHistory_def Let_def)
  then have ex: "\<exists>v' s' f'. hasSession s' \<and> filtered s' = Some f' \<and>
      int (length f') < cursor (onHistory v' s')"
    by blast
  from eq nav ex show ?thesis by simp
qed

text \<open>
  The theorem at a session with one entry in its view and a snapshot of three entries:
  the next step toward older entries reads the view at index 2 and finds nothing.
\<close>

theorem onHistory_frame_witness:
  "hasSession \<lparr>cursor = 1, hasSession = True, history = Some [''a'', ''b''], kernel = Kernel 0,
             placeholder = ''a'', filtered = Some [''a'']\<rparr> \<and>
   filtered \<lparr>cursor = 1, hasSession = True, history = Some [''a'', ''b''], kernel = Kernel 0,
             placeholder = ''a'', filtered = Some [''a'']\<rparr> = Some [''a''] \<and>
   fst (back_op ''q'' (onHistory [(1, 1, ''x''), (1, 2, ''y''), (1, 3, ''z'')]
     \<lparr>cursor = 1, hasSession = True, history = Some [''a'', ''b''], kernel = Kernel 0,
             placeholder = ''a'', filtered = Some [''a'']\<rparr>)) = Inr None"
proof -
  let ?s = "\<lparr>cursor = 1, hasSession = True, history = Some [''a'', ''b''], kernel = Kernel 0,
             placeholder = ''a'', filtered = Some [''a'']\<rparr>"
  let ?v = "[(1, 1, ''x''), (1, 2, ''y''), (1, 3, ''z'')] :: history_reply"
  have a: "hasSession ?s \<and> filtered ?s = Some [''a'']" by simp
  have l: "onHistory_loop ?v 0 [] [] = [''x'', ''y'', ''z'']"
    by code_simp
  from onHistory_frame [of ?v ?s "[''a'']" "''q''"] a
  have "fst (back_op ''q'' (onHistory ?v ?s)) =
        Inr (vector_at [''a''] (int (length (onHistory_loop ?v 0 [] [])) - 1))"
    by blast
  then have "fst (back_op ''q'' (onHistory ?v ?s)) = Inr None"
    by (simp add: l vector_at_def)
  with a show ?thesis by blast
qed

section \<open>Binding another kernel\<close>

text \<open>
  Claim C2 says that binding a new kernel empties the history at once. The setter does
  not: an object bound to kernel 0, whose reply has put one entry into the history, is
  bound to kernel 1; the history still holds the entry, the request to kernel 1 is open,
  and a step toward older entries returns the entry of the previous binding.
\<close>

theorem rebinding_keeps_log_counterexample:
  "history (obj (snd (run [Resolve 0 [(1, 1, ''old'')], SetKernel (Kernel 1)] (new_world (Some (Kernel 0))))))
     = Some [''old''] \<and>
   pending (snd (run [Resolve 0 [(1, 1, ''old'')], SetKernel (Kernel 1)] (new_world (Some (Kernel 0))))) = [1] \<and>
   fst (run [Resolve 0 [(1, 1, ''old'')], SetKernel (Kernel 1), Back []] (new_world (Some (Kernel 0))))
     = [Void, Void, Content (Some ''old'')]"
  by code_simp

text \<open>
  Claim C2, amended. Binding a kernel that differs from the current one sends one request
  with the fixed configuration and writes the field \<open>kernel\<close>, nothing else: the
  history is the one before the call, and a navigation call made before a reply arrives
  answers what it would have answered before the binding.
\<close>

theorem rebinding_keeps_log:
  assumes "kernel s \<noteq> Kernel k"
  shows "kernel_set (Kernel k) s = ([(k, initialRequest)], s\<lparr>kernel := Kernel k\<rparr>) \<and>
         history (snd (kernel_set (Kernel k) s)) = history s \<and>
         fst (back_op p (snd (kernel_set (Kernel k) s))) = fst (back_op p s) \<and>
         fst (forward p (snd (kernel_set (Kernel k) s))) = fst (forward p s)"
proof -
  have k: "kernel_set (Kernel k) s = ([(k, initialRequest)], s\<lparr>kernel := Kernel k\<rparr>)"
    using assms by (auto simp: kernel_set_def Let_def)
  have b: "fst (back_op p (s\<lparr>kernel := Kernel k\<rparr>)) = fst (back_op p s)"
    by (simp add: back_op_def beginSession_def setFilter_def Let_def split: option.splits)
  have f: "fst (forward p (s\<lparr>kernel := Kernel k\<rparr>)) = fst (forward p s)"
    by (simp add: forward_def beginSession_def setFilter_def Let_def split: option.splits)
  show ?thesis by (simp add: k b f)
qed

text \<open>The theorem at an object bound to kernel 0 with one entry, rebound to kernel 1.\<close>

theorem rebinding_keeps_log_witness:
  "kernel \<lparr>cursor = 1, hasSession = False, history = Some [''old''], kernel = Kernel 0,
            placeholder = [], filtered = None\<rparr> \<noteq> Kernel 1 \<and>
   history (snd (kernel_set (Kernel 1)
     \<lparr>cursor = 1, hasSession = False, history = Some [''old''], kernel = Kernel 0,
        placeholder = [], filtered = None\<rparr>)) = Some [''old'']"
proof -
  let ?s = "\<lparr>cursor = 1, hasSession = False, history = Some [''old''], kernel = Kernel 0,
        placeholder = [], filtered = None\<rparr>"
  have n: "kernel ?s \<noteq> Kernel 1" by simp
  have h: "history ?s = Some [''old'']" by simp
  from rebinding_keeps_log [OF n, of "[]"]
  have "history (snd (kernel_set (Kernel 1) ?s)) = history ?s" by blast
  from this h have "history (snd (kernel_set (Kernel 1) ?s)) = Some [''old'']" by (rule trans)
  with n show ?thesis by (intro conjI)
qed

section \<open>A reply that arrives late\<close>

text \<open>
  Claim C3 says that the reply to a request of an earlier binding is dropped. It is
  merged: the object is bound to kernel 0, then to kernel 1; the reply of kernel 1
  arrives and fills the history; the request to kernel 0 is still open, and when its
  reply arrives the history and the cursor are those of that reply.
\<close>

theorem stale_reply_counterexample:
  "history (obj (snd (run [SetKernel (Kernel 1), Resolve 1 [(1, 1, ''new'')]] (new_world (Some (Kernel 0))))))
     = Some [''new''] \<and>
   kernel (obj (snd (run [SetKernel (Kernel 1), Resolve 1 [(1, 1, ''new'')]] (new_world (Some (Kernel 0))))))
     = Kernel 1 \<and>
   pending (snd (run [SetKernel (Kernel 1), Resolve 1 [(1, 1, ''new'')]] (new_world (Some (Kernel 0))))) = [0] \<and>
   history (obj (snd (run [SetKernel (Kernel 1), Resolve 1 [(1, 1, ''new'')],
                            Resolve 0 [(7, 1, ''stale''), (7, 2, ''data'')]] (new_world (Some (Kernel 0))))))
     = Some [''stale'', ''data''] \<and>
   cursor (obj (snd (run [SetKernel (Kernel 1), Resolve 1 [(1, 1, ''new'')],
                            Resolve 0 [(7, 1, ''stale''), (7, 2, ''data'')]] (new_world (Some (Kernel 0))))))
     = 2"
  by code_simp

text \<open>
  Claim C3, amended. When an open request resolves whose kernel is not the bound one, its
  reply is merged as any other: the object is the result of \<open>onHistory\<close>, the history
  the deduplicated reply, the cursor its length, and the request is open no more.
\<close>

theorem stale_reply_is_merged:
  assumes "i < length (pending w)"
      and "kernel (obj w) \<noteq> Kernel (pending w ! i)"
  shows "obj (snd (step (Resolve i v) w)) = onHistory v (obj w) \<and>
         history (obj (snd (step (Resolve i v) w))) = Some (onHistory_loop v 0 [] []) \<and>
         cursor (obj (snd (step (Resolve i v) w))) = int (length (onHistory_loop v 0 [] [])) \<and>
         pending (snd (step (Resolve i v) w)) = settle i (pending w)"
  using assms(1) by (simp add: onHistory_def Let_def)

text \<open>The theorem at an object bound to kernel 1 while the request to kernel 0 is open.\<close>

theorem stale_reply_is_merged_witness:
  "(0::nat) < length (pending \<lparr>obj = \<lparr>cursor = 1, hasSession = False, history = Some [''new''],
        kernel = Kernel 1, placeholder = [], filtered = None\<rparr>, pending = [0]\<rparr>) \<and>
   kernel (obj \<lparr>obj = \<lparr>cursor = 1, hasSession = False, history = Some [''new''],
        kernel = Kernel 1, placeholder = [], filtered = None\<rparr>, pending = [0]\<rparr>)
     \<noteq> Kernel (pending \<lparr>obj = \<lparr>cursor = 1, hasSession = False, history = Some [''new''],
        kernel = Kernel 1, placeholder = [], filtered = None\<rparr>, pending = [0]\<rparr> ! 0) \<and>
   history (obj (snd (step (Resolve 0 [(7, 1, ''stale'')])
      \<lparr>obj = \<lparr>cursor = 1, hasSession = False, history = Some [''new''],
        kernel = Kernel 1, placeholder = [], filtered = None\<rparr>, pending = [0]\<rparr>)))
     = Some [''stale'']"
proof -
  let ?w = "\<lparr>obj = \<lparr>cursor = 1, hasSession = False, history = Some [''new''],
        kernel = Kernel 1, placeholder = [], filtered = None\<rparr>, pending = [0::nat]\<rparr>"
  have a: "(0::nat) < length (pending ?w)" by simp
  have b: "kernel (obj ?w) \<noteq> Kernel (pending ?w ! 0)" by simp
  have l: "onHistory_loop [(7, 1, ''stale'')] 0 [] [] = [''stale'']" by code_simp
  from stale_reply_is_merged [OF a b, of "[(7, 1, ''stale'')]"]
  have "history (obj (snd (step (Resolve 0 [(7, 1, ''stale'')]) ?w)))
          = Some (onHistory_loop [(7, 1, ''stale'')] 0 [] [])" by blast
  then have "history (obj (snd (step (Resolve 0 [(7, 1, ''stale'')]) ?w))) = Some [''stale'']"
    by (simp only: l)
  with a b show ?thesis by (intro conjI)
qed

section \<open>Runs of calls\<close>

lemma run_Cons_fst: "fst (run (e # es) w) = fst (step e w) # fst (run es (snd (step e w)))"
  by (simp add: case_prod_unfold)

lemma run_Cons_snd: "snd (run (e # es) w) = snd (run es (snd (step e w)))"
  by (simp add: case_prod_unfold)

lemma length_run: "length (fst (run es w)) = length es"
  by (induction es arbitrary: w) (simp_all add: case_prod_unfold)

lemma step_Back_in_session:
  "hasSession (obj w) \<Longrightarrow> filtered (obj w) = Some f \<Longrightarrow>
   step (Back p) w =
     (Content (vector_at f (cursor (obj w) - 1)),
      w\<lparr>obj := (obj w)\<lparr>cursor := max 0 (cursor (obj w) - 1)\<rparr>\<rparr>)"
  by (simp add: back_in_session content_outcome_def)

lemma step_Forward_in_session:
  "hasSession (obj w) \<Longrightarrow> filtered (obj w) = Some f \<Longrightarrow>
   step (Forward p) w =
     (Content (vector_at f (cursor (obj w) + 1)),
      w\<lparr>obj := (obj w)\<lparr>cursor := min (int (length f)) (cursor (obj w) + 1)\<rparr>\<rparr>)"
  by (simp add: forward_in_session content_outcome_def)

lemma step_Forward_begin:
  "\<not> hasSession (obj w) \<Longrightarrow> history (obj w) = Some h \<Longrightarrow>
   step (Forward p) w =
     (Content None,
      w\<lparr>obj := (obj w)\<lparr>hasSession := True, placeholder := p,
                        filtered := Some (filter (matches p) h),
                        cursor := int (length (filter (matches p) h))\<rparr>\<rparr>)"
  by (simp add: forward_begin content_outcome_def)

section \<open>Stepping back beyond the oldest entry\<close>

text \<open>
  Claim C1 says that, once the oldest matching entry has been returned, further steps
  toward older entries return it again. They return nothing: with the history a=1, a=2,
  b=1 and the placeholder a, the first two steps return a=2 and a=1, the cursor is 0, and
  the third and the fourth step return \<open>undefined\<close>, the vector being read at index
  -1 before the cursor is clamped.
\<close>

theorem back_past_oldest_counterexample:
  "fst (run [Push (Some ''a=1''), Push (Some ''a=2''), Push (Some ''b=1''),
             Back ''a'', Back ''ignored'', Back ''a'', Back ''a''] (new_world None))
     = [Void, Void, Void, Content (Some ''a=2''), Content (Some ''a=1''), Content None, Content None] \<and>
   filtered (obj (snd (run [Push (Some ''a=1''), Push (Some ''a=2''), Push (Some ''b=1''),
             Back ''a'', Back ''ignored''] (new_world None)))) = Some [''a=1'', ''a=2''] \<and>
   cursor (obj (snd (run [Push (Some ''a=1''), Push (Some ''a=2''), Push (Some ''b=1''),
             Back ''a'', Back ''ignored''] (new_world None)))) = 0"
  by code_simp

text \<open>
  Claim C1, amended. In a session whose cursor has reached 0, every further step toward
  older entries returns no entry and leaves the object as it is, the cursor at 0
  included; the placeholders of the calls do not matter.
\<close>

theorem back_past_oldest_no_entry:
  assumes "hasSession (obj w)" and "filtered (obj w) = Some f" and "cursor (obj w) = 0"
  shows "run (map Back ps) w = (replicate (length ps) (Content None), w)"
proof (induction ps)
  case Nil
  show ?case by simp
next
  case (Cons p ps)
  have e: "(obj w)\<lparr>cursor := 0\<rparr> = obj w"
    using assms(3) by (cases "obj w") simp
  have "step (Back p) w = (Content None, w)"
    by (simp only: step_Back_in_session [OF assms(1,2)] assms(3)) (simp add: vector_at_def e)
  with Cons show ?case by simp
qed

text \<open>The theorem at the session of the example above, after its second step.\<close>

theorem back_past_oldest_no_entry_witness:
  "hasSession (obj \<lparr>obj = \<lparr>cursor = 0, hasSession = True, history = Some [''a=1'', ''a=2'', ''b=1''],
       kernel = Null, placeholder = ''a'', filtered = Some [''a=1'', ''a=2'']\<rparr>, pending = []\<rparr>) \<and>
   run (map Back [''a'', ''b''])
     \<lparr>obj = \<lparr>cursor = 0, hasSession = True, history = Some [''a=1'', ''a=2'', ''b=1''],
       kernel = Null, placeholder = ''a'', filtered = Some [''a=1'', ''a=2'']\<rparr>, pending = []\<rparr>
   = ([Content None, Content None],
      \<lparr>obj = \<lparr>cursor = 0, hasSession = True, history = Some [''a=1'', ''a=2'', ''b=1''],
       kernel = Null, placeholder = ''a'', filtered = Some [''a=1'', ''a=2'']\<rparr>, pending = []\<rparr>)"
proof -
  let ?w = "\<lparr>obj = \<lparr>cursor = 0, hasSession = True, history = Some [''a=1'', ''a=2'', ''b=1''],
       kernel = Null, placeholder = ''a'', filtered = Some [''a=1'', ''a=2'']\<rparr>, pending = []\<rparr>
       :: world"
  have a: "hasSession (obj ?w)" by simp
  have b: "filtered (obj ?w) = Some [''a=1'', ''a=2'']" by simp
  have c: "cursor (obj ?w) = 0" by simp
  have r: "replicate (length [''a'', ''b'']) (Content None) = [Content None, Content None]"
    by simp
  from back_past_oldest_no_entry [OF a b c, of "[''a'', ''b'']"]
  have "run (map Back [''a'', ''b'']) ?w = ([Content None, Content None], ?w)"
    by (simp only: r)
  with a show ?thesis by (intro conjI)
qed

section \<open>The cursor is never negative\<close>

text \<open>
  No event makes the cursor negative, so it is not negative in any state that a freshly
  constructed object reaches.
\<close>

lemma step_cursor_nonneg:
  assumes "0 \<le> cursor (obj w)"
  shows "0 \<le> cursor (obj (snd (step e w)))"
proof (cases e)
  case (SetKernel k)
  have "cursor (snd (kernel_set k (obj w))) = cursor (obj w)"
    by (simp add: kernel_set_def Let_def split: kernel_ref.splits)
  with assms show ?thesis
    unfolding SetKernel by (simp add: case_prod_unfold)
next
  case Dispose
  with assms show ?thesis by (simp add: dispose_def)
next
  case (Back p)
  have "0 \<le> cursor (snd (back_op p (obj w)))"
    using assms
    by (simp add: back_op_def beginSession_def setFilter_def Let_def split: option.splits)
  then show ?thesis
    unfolding Back by (simp add: case_prod_unfold)
next
  case (Forward p)
  have "0 \<le> cursor (snd (forward p (obj w)))"
    using assms
    by (simp add: forward_def beginSession_def setFilter_def Let_def split: option.splits)
  then show ?thesis
    unfolding Forward by (simp add: case_prod_unfold)
next
  case (Push item)
  have "0 \<le> cursor (snd (push item (obj w)))"
    using assms by (simp add: push_def reset_def split: option.splits)
  then show ?thesis
    unfolding Push by (simp add: case_prod_unfold)
next
  case Reset
  have "0 \<le> cursor (snd (reset (obj w)))"
    using assms by (simp add: reset_def split: option.splits)
  then show ?thesis
    unfolding Reset by (simp add: case_prod_unfold)
next
  case (Resolve i v)
  with assms show ?thesis by (simp add: onHistory_def Let_def)
next
  case (Reject i)
  with assms show ?thesis by simp
qed

lemma run_cursor_nonneg:
  "0 \<le> cursor (obj w) \<Longrightarrow> 0 \<le> cursor (obj (snd (run evs w)))"
proof (induction evs arbitrary: w)
  case Nil
  then show ?case by simp
next
  case (Cons e evs)
  from Cons.prems have "0 \<le> cursor (obj (snd (step e w)))"
    by (rule step_cursor_nonneg)
  then have "0 \<le> cursor (obj (snd (run evs (snd (step e w)))))"
    by (rule Cons.IH)
  then show ?case by (simp only: run_Cons_snd)
qed

lemma reachable_cursor_nonneg: "0 \<le> cursor (obj (snd (run evs (new_world opt))))"
proof (rule run_cursor_nonneg)
  show "0 \<le> cursor (obj (new_world opt))"
    by (simp add: new_world_def construct_def kernel_set_def Let_def
          split: option.splits kernel_ref.splits)
qed

section \<open>Stepping forward to the end\<close>






section \<open>Entries returned during a session\<close>

text \<open>
  Opening a session on an object with a history puts the session in good order, and every
  event that does not end the session keeps it so; a navigation call in a session in good
  order returns nothing or an entry that matches the placeholder of the session.
\<close>

lemma matches_prefix: "matches P e \<longleftrightarrow> take (length P) e = P"
  by (auto simp: matches_def)

lemma vector_at_in_set: "vector_at xs i = Some x \<Longrightarrow> x \<in> set xs"
  by (auto simp: vector_at_def split: if_splits)

lemma view_ok_content:
  assumes "view_ok P s" and "filtered s = Some f" and "vector_at f i = Some x"
  shows "matches P x"
  using assms vector_at_in_set [OF assms(3)] by (auto simp: view_ok_def list_all_iff)

lemma step_Back_begin:
  "\<not> hasSession (obj w) \<Longrightarrow> history (obj w) = Some h \<Longrightarrow>
   step (Back p) w =
     (Content (vector_at (filter (matches p) h) (int (length (filter (matches p) h)) - 1)),
      w\<lparr>obj := (obj w)\<lparr>hasSession := True, placeholder := p,
                        filtered := Some (filter (matches p) h),
                        cursor := max 0 (int (length (filter (matches p) h)) - 1)\<rparr>\<rparr>)"
  by (simp add: back_begin content_outcome_def)

lemma begin_view_ok:
  assumes "\<not> hasSession (obj w)" and "history (obj w) = Some h"
      and "start = Back P \<or> start = Forward P"
  shows "view_ok P (obj (snd (step start w))) \<and>
         (\<forall>x. fst (step start w) = Content (Some x) \<longrightarrow> matches P x)"
proof -
  let ?f = "filter (matches P) h"
  have m: "\<forall>x. Content (vector_at ?f i) = Content (Some x) \<longrightarrow> matches P x" for i
  proof (intro allI impI)
    fix x
    assume "Content (vector_at ?f i) = Content (Some x)"
    then have "vector_at ?f i = Some x" by (simp only: outcome.inject)
    then have "x \<in> set ?f" by (rule vector_at_in_set)
    then show "matches P x" by simp
  qed
  have v: "view_ok P (obj (w\<lparr>obj := (obj w)\<lparr>hasSession := True, placeholder := P,
                        filtered := Some ?f, cursor := c\<rparr>\<rparr>))" for c
    by (simp add: view_ok_def list_all_iff)
  from assms(3) show ?thesis
  proof
    assume b: "start = Back P"
    show ?thesis
      unfolding b step_Back_begin [OF assms(1,2)] fst_conv snd_conv
      by (rule conjI [OF v m])
  next
    assume f: "start = Forward P"
    show ?thesis
      unfolding f step_Forward_begin [OF assms(1,2)] fst_conv snd_conv
      by (rule conjI [OF v]) simp
  qed
qed

lemma step_view_ok:
  assumes "view_ok P (obj w)" and "\<not> ends_session e"
  shows "view_ok P (obj (snd (step e w))) \<and>
         (\<forall>x. fst (step e w) = Content (Some x) \<longrightarrow> matches P x)"
proof -
  from assms(1) obtain f where s: "hasSession (obj w)" and f: "filtered (obj w) = Some f"
    by (auto simp: view_ok_def split: option.splits)
  have m: "\<forall>x. Content (vector_at f i) = Content (Some x) \<longrightarrow> matches P x" for i
  proof (intro allI impI)
    fix x
    assume "Content (vector_at f i) = Content (Some x)"
    then have "vector_at f i = Some x" by (simp only: outcome.inject)
    then show "matches P x" by (rule view_ok_content [OF assms(1) f])
  qed
  have v: "view_ok P (obj (w\<lparr>obj := (obj w)\<lparr>cursor := c\<rparr>\<rparr>))" for c
    using assms(1) by (simp add: view_ok_def)
  show ?thesis
  proof (cases e)
    case (SetKernel k)
    have "hasSession (snd (kernel_set k (obj w))) = hasSession (obj w) \<and>
          placeholder (snd (kernel_set k (obj w))) = placeholder (obj w) \<and>
          filtered (snd (kernel_set k (obj w))) = filtered (obj w)"
      by (simp add: kernel_set_def Let_def split: kernel_ref.splits)
    with assms(1) show ?thesis
      unfolding SetKernel by (simp add: view_ok_def case_prod_unfold)
  next
    case Dispose
    with assms(1) show ?thesis by (simp add: dispose_def view_ok_def)
  next
    case (Back p)
    have st: "step e w =
        (Content (vector_at f (cursor (obj w) - 1)),
         w\<lparr>obj := (obj w)\<lparr>cursor := max 0 (cursor (obj w) - 1)\<rparr>\<rparr>)"
      unfolding Back by (rule step_Back_in_session [OF s f])
    show ?thesis
      unfolding st fst_conv snd_conv by (rule conjI [OF v m])
  next
    case (Forward p)
    have st: "step e w =
        (Content (vector_at f (cursor (obj w) + 1)),
         w\<lparr>obj := (obj w)\<lparr>cursor := min (int (length f)) (cursor (obj w) + 1)\<rparr>\<rparr>)"
      unfolding Forward by (rule step_Forward_in_session [OF s f])
    show ?thesis
      unfolding st fst_conv snd_conv by (rule conjI [OF v m])
  next
    case (Push item)
    with assms(2) show ?thesis by simp
  next
    case Reset
    with assms(2) show ?thesis by simp
  next
    case (Resolve i v)
    with assms(1) show ?thesis by (simp add: onHistory_def Let_def view_ok_def)
  next
    case (Reject i)
    with assms(1) show ?thesis by simp
  qed
qed

lemma run_view_ok:
  assumes "view_ok P (obj w)" and "\<forall>e\<in>set evs. \<not> ends_session e"
      and "Content (Some x) \<in> set (fst (run evs w))"
  shows "matches P x"
  using assms
proof (induction evs arbitrary: w)
  case Nil
  then show ?case by simp
next
  case (Cons e evs)
  from Cons.prems(2) have ne: "\<not> ends_session e" and rest: "\<forall>e\<in>set evs. \<not> ends_session e"
    by simp_all
  note st = step_view_ok [OF Cons.prems(1) ne]
  from Cons.prems(3) have "fst (step e w) = Content (Some x) \<or>
      Content (Some x) \<in> set (fst (run evs (snd (step e w))))"
    unfolding run_Cons_fst by auto
  then show ?case
  proof
    assume "fst (step e w) = Content (Some x)"
    with st show ?thesis by blast
  next
    assume "Content (Some x) \<in> set (fst (run evs (snd (step e w))))"
    with Cons.IH [OF _ rest] st show ?thesis by blast
  qed
qed

text \<open>
  Claim C6. A session is opened with placeholder \<open>P\<close> by a step in either direction
  that returns, that is, does not raise. Whatever follows before a push or a reset
  (navigation calls with any placeholders, bindings, replies, even \<open>dispose\<close>), every
  entry that a navigation call of the run returns starts with \<open>P\<close>: cut to the length
  of \<open>P\<close> it is \<open>P\<close>, which is what \<open>matches\<close> tests; and the empty
  placeholder matches every entry.
\<close>

theorem session_entries_start_with_placeholder:
  assumes "\<not> hasSession (obj w)"
      and "start = Back P \<or> start = Forward P"
      and "fst (step start w) = Content r"
      and "\<forall>e\<in>set evs. \<not> ends_session e"
      and "Content (Some entry) \<in> set (fst (run (start # evs) w))"
  shows "take (length P) entry = P \<and> matches P entry \<and> matches [] entry"
proof -
  have "history (obj w) \<noteq> None"
  proof
    assume "history (obj w) = None"
    then have "fst (step start w) = Thrown TypeError"
      using assms(1,2) by (auto simp: begin_without_history content_outcome_def case_prod_unfold)
    with assms(3) show False by simp
  qed
  then obtain log where l: "history (obj w) = Some log" by blast
  note b = begin_view_ok [OF assms(1) l assms(2)]
  from assms(5) have "fst (step start w) = Content (Some entry) \<or>
      Content (Some entry) \<in> set (fst (run evs (snd (step start w))))"
    unfolding run_Cons_fst by auto
  then have "matches P entry"
  proof
    assume "fst (step start w) = Content (Some entry)"
    with b show ?thesis by blast
  next
    assume "Content (Some entry) \<in> set (fst (run evs (snd (step start w))))"
    with run_view_ok [OF _ assms(4)] b show ?thesis by blast
  qed
  then show ?thesis by (simp add: matches_prefix matches_def)
qed

text \<open>
  The theorem at the history a=1, a=2, b=1: a session opened with the placeholder a,
  whose second call comes with another placeholder and returns a=1.
\<close>

theorem session_entries_start_with_placeholder_witness:
  "\<not> hasSession (obj \<lparr>obj = \<lparr>cursor = 3, hasSession = False,
       history = Some [''a=1'', ''a=2'', ''b=1''], kernel = Null, placeholder = [],
       filtered = None\<rparr>, pending = []\<rparr>) \<and>
   Content (Some ''a=1'') \<in> set (fst (run (Back ''a'' # [Back ''ignored''])
     \<lparr>obj = \<lparr>cursor = 3, hasSession = False,
       history = Some [''a=1'', ''a=2'', ''b=1''], kernel = Null, placeholder = [],
       filtered = None\<rparr>, pending = []\<rparr>)) \<and>
   take (length ''a'') ''a=1'' = ''a''"
proof -
  let ?w = "\<lparr>obj = \<lparr>cursor = 3, hasSession = False,
       history = Some [''a=1'', ''a=2'', ''b=1''], kernel = Null, placeholder = [],
       filtered = None\<rparr>, pending = []\<rparr> :: world"
  have h1: "\<not> hasSession (obj ?w)" by simp
  have h2: "Back ''a'' = Back ''a'' \<or> Back ''a'' = Forward ''a''" by simp
  have h3: "fst (step (Back ''a'') ?w) = Content (Some ''a=2'')" by code_simp
  have h4: "\<forall>e\<in>set [Back ''ignored'']. \<not> ends_session e" by simp
  have r: "fst (run (Back ''a'' # [Back ''ignored'']) ?w)
             = [Content (Some ''a=2''), Content (Some ''a=1'')]"
    by code_simp
  have h5: "Content (Some ''a=1'') \<in> set (fst (run (Back ''a'' # [Back ''ignored'']) ?w))"
    unfolding r by simp
  from session_entries_start_with_placeholder [OF h1 h2 h3 h4 h5]
  have t: "take (length ''a'') ''a=1'' = ''a''" by (rule conjunct1)
  from h1 h5 t show ?thesis by (intro conjI)
qed

section \<open>After disposal\<close>

text \<open>
  Navigation never writes the history, and on a disposed object \<open>push\<close> and
  \<open>reset\<close> raise before they write anything: the events other than the arrival of
  a reply and the assignment of \<open>null\<close> or \<open>undefined\<close> to \<open>kernel\<close> keep
  a disposed object disposed.
\<close>

lemma back_op_history: "history (snd (back_op p s)) = history s"
  by (simp add: back_op_def beginSession_def setFilter_def Let_def split: option.splits)

lemma forward_history: "history (snd (forward p s)) = history s"
  by (simp add: forward_def beginSession_def setFilter_def Let_def split: option.splits)

lemma disposed_push: "isDisposed s \<Longrightarrow> push item s = (Inl TypeError, s)"
  by (simp add: isDisposed_def push_def reset_def split: option.splits)

lemma disposed_reset: "isDisposed s \<Longrightarrow> reset s = (Inl TypeError, s)"
  by (simp add: isDisposed_def reset_def)

lemma step_stays_disposed:
  assumes "isDisposed (obj w)" and "\<not> revives e"
  shows "isDisposed (obj (snd (step e w)))"
proof (cases e)
  case (SetKernel k)
  with assms(2) obtain k' where k: "k = Kernel k'" by (cases k) simp_all
  have "history (snd (kernel_set (Kernel k') (obj w))) = history (obj w)"
    by (simp add: kernel_set_def Let_def)
  with assms(1) show ?thesis
    unfolding SetKernel k by (simp add: isDisposed_def case_prod_unfold)
next
  case Dispose
  with assms(1) show ?thesis by (simp add: dispose_def)
next
  case (Back p)
  from assms(1) show ?thesis
    unfolding Back by (simp add: isDisposed_def case_prod_unfold back_op_history)
next
  case (Forward p)
  from assms(1) show ?thesis
    unfolding Forward by (simp add: isDisposed_def case_prod_unfold forward_history)
next
  case (Push item)
  from assms(1) show ?thesis
    unfolding Push by (simp add: disposed_push)
next
  case Reset
  from assms(1) show ?thesis
    unfolding Reset by (simp add: disposed_reset)
next
  case (Resolve i v)
  with assms(2) show ?thesis by simp
next
  case (Reject i)
  with assms(1) show ?thesis by simp
qed

lemma run_stays_disposed:
  "isDisposed (obj w) \<Longrightarrow> \<forall>e\<in>set evs. \<not> revives e \<Longrightarrow> isDisposed (obj (snd (run evs w)))"
proof (induction evs arbitrary: w)
  case Nil
  then show ?case by simp
next
  case (Cons e evs)
  from Cons.prems have "isDisposed (obj (snd (step e w)))"
    by (intro step_stays_disposed) simp_all
  moreover from Cons.prems have "\<forall>e\<in>set evs. \<not> revives e" by simp
  ultimately have "isDisposed (obj (snd (run evs (snd (step e w)))))"
    by (rule Cons.IH)
  then show ?case by (simp only: run_Cons_snd)
qed

text \<open>
  Claim C9. After disposal every further call signals an error or changes nothing, and
  nothing gives the object a history again. The class has the contract
  (\<open>isDisposed\<close>, "whether the console history manager is disposed", is the test
  \<open>_history === null\<close> that \<open>dispose\<close> establishes) and breaks it, since
  \<open>onHistory\<close> and the branch of the setter for a missing kernel install a fresh
  vector without looking at it. An object constructed with kernel 0 and disposed while
  the request of its constructor is open is disposed; when the reply arrives, with no
  call made after \<open>dispose\<close>, it is not disposed any more and holds the entry of the
  reply. On an object constructed without a kernel and disposed, assigning
  \<open>undefined\<close> to \<open>kernel\<close> installs an empty history, and so does assigning
  \<open>null\<close> on a disposed object that was bound; binding a kernel after disposal
  sends a request whose reply fills the history. None of these calls raises.
\<close>

theorem disposed_object_revived:
  "isDisposed (obj (snd (run [Dispose] (new_world (Some (Kernel 0)))))) \<and>
   pending (snd (run [Dispose] (new_world (Some (Kernel 0))))) = [0] \<and>
   \<not> isDisposed (obj (snd (run [Dispose, Resolve 0 [(1, 1, ''x'')]]
                              (new_world (Some (Kernel 0)))))) \<and>
   history (obj (snd (run [Dispose, Resolve 0 [(1, 1, ''x'')]]
                       (new_world (Some (Kernel 0)))))) = Some [''x''] \<and>
   isDisposed (obj (snd (run [Dispose] (new_world None)))) \<and>
   history (obj (snd (run [Dispose, SetKernel Undefined] (new_world None)))) = Some [] \<and>
   history (obj (snd (run [Dispose, SetKernel Null] (new_world (Some (Kernel 0))))))
     = Some [] \<and>
   history (obj (snd (run [Dispose, SetKernel (Kernel 1), Resolve 0 [(1, 1, ''x'')]]
                       (new_world None)))) = Some [''x''] \<and>
   fst (run [Dispose, SetKernel (Kernel 1), Resolve 0 [(1, 1, ''x'')]] (new_world None))
     = [Void, Void, Void]"
  by code_simp

end
